theory Spec2Isabelle
  imports Main "HOL-Library.Word"
begin

unbundle bit_operations_syntax

section \<open>Block\<close>

text \<open>
  Modelled from the spec: the struct \<open>block\<close>, the default \<open>block_t\<close> of
  \<open>free_list\<close>, is not defined in free_list.hpp. The spec (sections 3 and 4.1) gives it a
  base address, comparable as an integer, and a non-negative byte count. Pointer
  arithmetic that leaves the address space is undefined in C++, so both are natural
  numbers and \<open>address + size\<close> does not wrap.
\<close>

record block =
  address :: nat
  size_b :: nat

text \<open>Modelled from the spec: blocks are ordered by address (\<open>operator<\<close>).\<close>

definition block_less :: "block \<Rightarrow> block \<Rightarrow> bool" where
  "block_less a b = (address a < address b)"

text \<open>Modelled from the spec: \<open>fits(size)\<close> is true iff \<open>size \<le> this.size\<close>.\<close>

definition fits :: "block \<Rightarrow> nat \<Rightarrow> bool" where
  "fits this sz = (sz \<le> size_b this)"

text \<open>
  Modelled from the spec: \<open>is_better_fit(size, other)\<close> is true iff \<open>this\<close> is a valid
  fit for \<open>size\<close> and is strictly smaller than \<open>other\<close>, or \<open>other\<close> is not a valid fit
  while \<open>this\<close> is.
\<close>

definition is_better_fit :: "block \<Rightarrow> nat \<Rightarrow> block \<Rightarrow> bool" where
  "is_better_fit this sz other =
     (fits this sz \<and> (size_b this < size_b other \<or> \<not> fits other sz))"

text \<open>
  Modelled from the spec: \<open>a.is_contiguous_before(b)\<close> iff
  \<open>a.address + a.size == b.address\<close>.
\<close>

definition is_contiguous_before :: "block \<Rightarrow> block \<Rightarrow> bool" where
  "is_contiguous_before a b = (address a + size_b a = address b)"

text \<open>
  Modelled from the spec: \<open>merge(other)\<close> produces the block spanning both. The free
  list calls it as a statement on the list entry (\<open>previous->merge(b)\<close>) and for its
  value (\<open>*next = b.merge(*next)\<close>), and the spec merges "into that neighbor in place":
  the receiver becomes the spanning block, which is also the value returned. The model
  returns the new value of the receiver.
\<close>

definition merge :: "block \<Rightarrow> block \<Rightarrow> block" where
  "merge this other = this\<lparr>size_b := size_b this + size_b other\<rparr>"

text \<open>
  Modelled from the spec: a default-constructed block (\<open>block_t{}\<close>) has the null
  address and size zero.
\<close>

definition default_block :: block where
  "default_block = \<lparr>address = 0, size_b = 0\<rparr>"

section \<open>The free list\<close>

text \<open>
  \<open>free_list\<close> has one member, the \<open>std::list\<close> of blocks; the model is that list. An
  iterator is the position it refers to, \<open>blocks.begin()\<close> is \<open>0\<close> and \<open>blocks.end()\<close>
  is the length of the list.
\<close>

type_synonym free_list = "block list"

definition size_fl :: "free_list \<Rightarrow> nat" where
  "size_fl blocks = length blocks"

definition is_empty_fl :: "free_list \<Rightarrow> bool" where
  "is_empty_fl blocks = (blocks = [])"

definition erase :: "free_list \<Rightarrow> nat \<Rightarrow> free_list" where
  "erase blocks iter = take iter blocks @ drop (Suc iter) blocks"

definition emplace :: "free_list \<Rightarrow> nat \<Rightarrow> block \<Rightarrow> free_list" where
  "emplace blocks pos b = take pos blocks @ b # drop pos blocks"

definition clear_fl :: "free_list \<Rightarrow> free_list" where
  "clear_fl blocks = []"

text \<open>\<open>std::find_if\<close>: the first position whose element satisfies the predicate, or the end.\<close>

fun find_if :: "('a \<Rightarrow> bool) \<Rightarrow> 'a list \<Rightarrow> nat" where
  "find_if p [] = 0"
| "find_if p (x # xs) = (if p x then 0 else Suc (find_if p xs))"

text \<open>
  \<open>coalesced_emplace\<close>, statement by statement: the locals \<open>next\<close>, \<open>previous\<close>,
  \<open>merge_prev\<close> and \<open>merge_next\<close>, then the four branches. \<open>previous\<close> is \<open>next\<close>
  itself when \<open>next\<close> is the beginning of the list. In the three-way branch the two
  merges are two successive updates of the entry at \<open>previous\<close>, and the second reads
  \<open>*next\<close> from the list as the first left it.
\<close>

definition next_it :: "free_list \<Rightarrow> block \<Rightarrow> nat" where
  "next_it blocks b = find_if (\<lambda>i. block_less b i) blocks"

definition previous_it :: "free_list \<Rightarrow> block \<Rightarrow> nat" where
  "previous_it blocks b =
     (let next = next_it blocks b in if next = 0 then next else next - 1)"

definition merge_prev :: "free_list \<Rightarrow> block \<Rightarrow> bool" where
  "merge_prev blocks b = is_contiguous_before (blocks ! previous_it blocks b) b"

definition merge_next :: "free_list \<Rightarrow> block \<Rightarrow> bool" where
  "merge_next blocks b =
     (let next = next_it blocks b
      in next \<noteq> length blocks \<and> is_contiguous_before b (blocks ! next))"

definition coalesced_emplace :: "free_list \<Rightarrow> block \<Rightarrow> free_list" where
  "coalesced_emplace blocks b =
     (if is_empty_fl blocks then emplace blocks (length blocks) b
      else
        let next = next_it blocks b;
            previous = previous_it blocks b
        in if merge_prev blocks b \<and> merge_next blocks b then
             let blocks1 = blocks[previous := merge (blocks ! previous) b];
                 blocks2 = blocks1[previous := merge (blocks1 ! previous) (blocks1 ! next)]
             in erase blocks2 next
           else if merge_prev blocks b then
             blocks[previous := merge (blocks ! previous) b]
           else if merge_next blocks b then
             blocks[next := merge b (blocks ! next)]
           else emplace blocks next b)"

definition insert_block :: "free_list \<Rightarrow> block \<Rightarrow> free_list" where
  "insert_block blocks b = coalesced_emplace blocks b"

text \<open>\<open>insert(first, last)\<close>: \<open>std::for_each\<close> over the range, inserting each block.\<close>

fun insert_range :: "free_list \<Rightarrow> block list \<Rightarrow> free_list" where
  "insert_range blocks [] = blocks"
| "insert_range blocks (b # bs) = insert_range (insert_block blocks b) bs"

text \<open>
  \<open>std::min_element\<close> with a comparator: the end for an empty range; otherwise the
  loop that starts with the first position as the smallest and moves to a later position
  whenever its element compares less than the current smallest.
\<close>

function min_element_loop :: "('a \<Rightarrow> 'a \<Rightarrow> bool) \<Rightarrow> 'a list \<Rightarrow> nat \<Rightarrow> nat \<Rightarrow> nat" where
  "min_element_loop cmp xs first smallest =
     (if first < length xs
      then min_element_loop cmp xs (Suc first)
             (if cmp (xs ! first) (xs ! smallest) then first else smallest)
      else smallest)"
  by pat_completeness auto
termination
  by (relation "measure (\<lambda>(cmp, xs, first, smallest). length xs - first)") auto

declare min_element_loop.simps [simp del]

definition min_element :: "('a \<Rightarrow> 'a \<Rightarrow> bool) \<Rightarrow> 'a list \<Rightarrow> nat" where
  "min_element cmp xs = (if xs = [] then length xs else min_element_loop cmp xs 1 0)"

text \<open>
  \<open>best_fit\<close> returns the block found and leaves the list without it, or returns the
  default block and leaves the list alone. The model returns the block and the list.
\<close>

definition best_fit :: "free_list \<Rightarrow> nat \<Rightarrow> block \<times> free_list" where
  "best_fit blocks sz =
     (let iter = min_element (\<lambda>lhs rhs. is_better_fit lhs sz rhs) blocks
      in if iter \<noteq> length blocks \<and> fits (blocks ! iter) sz
         then (blocks ! iter, erase blocks iter)
         else (default_block, blocks))"

section \<open>Status codes and constants of the C interface\<close>

text \<open>The status codes that rmm.cpp and the checking macro of memory_manager.hpp name.\<close>

datatype rmmError_t =
    RMM_SUCCESS
  | RMM_ERROR_CUDA_ERROR
  | RMM_ERROR_INVALID_ARGUMENT
  | RMM_ERROR_NOT_INITIALIZED
  | RMM_ERROR_OUT_OF_MEMORY
  | RMM_ERROR_UNKNOWN
  | RMM_ERROR_IO

datatype cnmemStatus_t =
    CNMEM_STATUS_SUCCESS
  | CNMEM_STATUS_CUDA_ERROR
  | CNMEM_STATUS_INVALID_ARGUMENT
  | CNMEM_STATUS_NOT_INITIALIZED
  | CNMEM_STATUS_OUT_OF_MEMORY
  | CNMEM_STATUS_UNKNOWN_ERROR

datatype cudaError_t = cudaSuccess | cudaErrorCode nat

text \<open>
  The enumerators of the allocation mode and the cnmem flag are declared in rmm_api.h
  and cnmem.h, which are not among the sources, and the spec gives them no values. They
  are parameters of every function that reads them.
\<close>

record api_constants =
  CudaDefaultAllocation :: "32 word"
  PoolAllocation :: "32 word"
  CudaManagedMemory :: "32 word"
  CNMEM_FLAGS_MANAGED :: "32 word"

text \<open>
  Modelled from the spec: \<open>rmmOptions_t\<close> is declared in rmm_api.h, not among the
  sources. The spec's configuration is the allocation mode, the managed-memory flag and
  the initial pool size; the code reads \<open>allocation_mode\<close> and \<open>initial_pool_size\<close>.
\<close>

record rmmOptions_t =
  allocation_mode :: "32 word"
  managed_memory :: bool
  initial_pool_size :: nat

section \<open>Logger\<close>

datatype MemEvent_t = Alloc | Realloc | Free

record MemoryEvent =
  event :: MemEvent_t
  deviceId :: int
  ptr :: nat
  size_ev :: nat
  stream :: nat
  freeMem :: nat
  totalMem :: nat
  currentAllocations :: nat
  start :: int
  end_ev :: int
  filename :: string
  line :: nat

record Logger =
  current_allocations :: "nat set"
  base_time :: int
  events :: "MemoryEvent list"

text \<open>
  Modelled from the spec: \<open>Logger::clear\<close> is declared in memory_manager.hpp and defined
  nowhere in the sources. The spec: \<open>clear()\<close> drops all records and resets the
  live-pointer set.
\<close>

definition clear_log :: "Logger \<Rightarrow> Logger" where
  "clear_log l = l\<lparr>current_allocations := {}, events := []\<rparr>"

section \<open>Output streams\<close>

text \<open>
  The part of \<open>std::ostream\<close> that rmm.cpp relies on: the characters that reached the
  sink, the error state, the exception mask, and whether the sink accepts characters.
  \<open>setstate\<close> adds bits to the error state and throws \<open>ios_base::failure\<close> only if one
  of the bits now set is in the exception mask. A stream is constructed with an empty
  mask, and the mask changes only through \<open>exceptions(mask)\<close>, which rmm.cpp never calls.
\<close>

datatype iostate_bit = badbit | failbit | eofbit

datatype ios_failure = Failure

record ostream =
  str :: string
  rdstate :: "iostate_bit set"
  exceptions :: "iostate_bit set"
  sink_ok :: bool

definition setstate :: "ostream \<Rightarrow> iostate_bit set \<Rightarrow> ios_failure + ostream" where
  "setstate os bits =
     (let os' = os\<lparr>rdstate := rdstate os \<union> bits\<rparr>
      in if rdstate os' \<inter> exceptions os' \<noteq> {} then Inl Failure else Inr os')"

text \<open>
  Formatted insertion (\<open>os << text\<close>): a stream that is not good sets \<open>failbit\<close> and
  writes nothing; a sink that refuses the characters sets \<open>badbit\<close>.
\<close>

definition ostream_insert :: "ostream \<Rightarrow> string \<Rightarrow> ios_failure + ostream" where
  "ostream_insert os txt =
     (if rdstate os \<noteq> {} then setstate os {failbit}
      else if sink_ok os then Inr (os\<lparr>str := str os @ txt\<rparr>)
      else setstate os {badbit})"

text \<open>A default-constructed \<open>std::ostringstream\<close>: empty, good, and its sink is memory.\<close>

definition ostringstream :: ostream where
  "ostringstream = \<lparr>str = [], rdstate = {}, exceptions = {}, sink_ok = True\<rparr>"

text \<open>
  A default-constructed \<open>std::ofstream\<close> has no file. \<open>open\<close> asks the file system,
  which is a parameter: the paths it opens for writing, and the paths whose file then
  accepts what is written. A failed \<open>open\<close> sets \<open>failbit\<close>.
\<close>

record file_system =
  opens :: "string \<Rightarrow> bool"
  accepts :: "string \<Rightarrow> bool"

definition ofstream :: ostream where
  "ofstream = \<lparr>str = [], rdstate = {}, exceptions = {}, sink_ok = False\<rparr>"

definition ofstream_open :: "file_system \<Rightarrow> ostream \<Rightarrow> string \<Rightarrow> ios_failure + ostream" where
  "ofstream_open fs os path =
     (if opens fs path then Inr (os\<lparr>sink_ok := accepts fs path\<rparr>)
      else setstate os {failbit})"

text \<open>
  Modelled from the spec: \<open>Logger::to_csv\<close> is declared in memory_manager.hpp and
  defined nowhere in the sources. The spec: it produces a deterministic, header-first
  tabular rendering of all records in insertion order. The text rendered for a log state
  is the parameter \<open>csv_of\<close>; \<open>to_csv\<close> inserts that text into the stream it is given.
\<close>

definition to_csv :: "(Logger \<Rightarrow> string) \<Rightarrow> Logger \<Rightarrow> ostream \<Rightarrow> ios_failure + ostream" where
  "to_csv csv_of l csv = ostream_insert csv (csv_of l)"

section \<open>Manager\<close>

record Manager =
  registered_streams :: "nat set"
  logger :: Logger
  options :: rmmOptions_t

text \<open>
  The singleton is the one \<open>Manager\<close> value that every function takes and returns.
  \<open>Manager()\<close> needs the logger's construction time, read from the system clock.
\<close>

definition Logger_init :: "int \<Rightarrow> Logger" where
  "Logger_init now = \<lparr>current_allocations = {}, base_time = now, events = []\<rparr>"

definition Manager_init :: "api_constants \<Rightarrow> int \<Rightarrow> Manager" where
  "Manager_init K now =
     \<lparr>registered_streams = {}, logger = Logger_init now,
      options = \<lparr>allocation_mode = CudaDefaultAllocation K, managed_memory = False,
                 initial_pool_size = 0\<rparr>\<rparr>"

definition getLogger :: "Manager \<Rightarrow> Logger" where
  "getLogger m = logger m"

definition setOptions :: "rmmOptions_t \<Rightarrow> Manager \<Rightarrow> Manager" where
  "setOptions opts m = m\<lparr>options := opts\<rparr>"

definition getOptions :: "Manager \<Rightarrow> rmmOptions_t" where
  "getOptions m = options m"

text \<open>
  The three mode queries. The first two return an integer \<open>mode & flag\<close> as \<open>bool\<close>,
  which is true iff it is not zero; the third compares for equality.
\<close>

definition usePoolAllocator :: "api_constants \<Rightarrow> Manager \<Rightarrow> bool" where
  "usePoolAllocator K m = (allocation_mode (getOptions m) AND PoolAllocation K \<noteq> 0)"

definition useManagedMemory :: "api_constants \<Rightarrow> Manager \<Rightarrow> bool" where
  "useManagedMemory K m = (allocation_mode (getOptions m) AND CudaManagedMemory K \<noteq> 0)"

definition useCudaDefaultAllocator :: "api_constants \<Rightarrow> Manager \<Rightarrow> bool" where
  "useCudaDefaultAllocator K m = (CudaDefaultAllocation K = allocation_mode (getOptions m))"

definition finalize :: "Manager \<Rightarrow> Manager" where
  "finalize m = m\<lparr>registered_streams := {}, logger := clear_log (logger m)\<rparr>"

section \<open>The C entry points of rmm.cpp\<close>

text \<open>
  The device runtime and cnmem are outside the repository. What they answer is a
  parameter, and the calls made to them are returned with the result, in order.
\<close>

record cnmemDevice_t =
  device :: int
  size_dev :: nat
  numStreams :: nat
  streams :: "nat list"
  streamSizes :: nat

datatype external_call =
    Call_cudaGetDevice
  | Call_cnmemInit nat cnmemDevice_t "32 word"
  | Call_cnmemFinalize

record device_runtime =
  cudaGetDevice :: "cudaError_t \<times> int"
  cnmemInit :: "nat \<Rightarrow> cnmemDevice_t \<Rightarrow> 32 word \<Rightarrow> cnmemStatus_t"
  cnmemFinalize :: cnmemStatus_t

text \<open>
  \<open>RMM_CHECK_CNMEM\<close>, with the mapping of statuses that memory_manager.hpp gives it
  (rmm.cpp passes the file and the line as further arguments, which select no status):
  \<open>None\<close> lets the calling function go on, \<open>Some e\<close> returns \<open>e\<close> from it.
\<close>

fun RMM_CHECK_CNMEM :: "cnmemStatus_t \<Rightarrow> rmmError_t option" where
  "RMM_CHECK_CNMEM CNMEM_STATUS_SUCCESS = None"
| "RMM_CHECK_CNMEM CNMEM_STATUS_CUDA_ERROR = Some RMM_ERROR_CUDA_ERROR"
| "RMM_CHECK_CNMEM CNMEM_STATUS_INVALID_ARGUMENT = Some RMM_ERROR_INVALID_ARGUMENT"
| "RMM_CHECK_CNMEM CNMEM_STATUS_NOT_INITIALIZED = Some RMM_ERROR_NOT_INITIALIZED"
| "RMM_CHECK_CNMEM CNMEM_STATUS_OUT_OF_MEMORY = Some RMM_ERROR_OUT_OF_MEMORY"
| "RMM_CHECK_CNMEM CNMEM_STATUS_UNKNOWN_ERROR = Some RMM_ERROR_UNKNOWN"

text \<open>
  Modelled from the spec: the macro \<open>RMM_CHECK_CUDA\<close> is defined in rmm.h, not among
  the sources. The spec maps a failure of the device layer to the device error kind, as
  the cnmem macro does for \<open>CNMEM_STATUS_CUDA_ERROR\<close>.
\<close>

fun RMM_CHECK_CUDA :: "cudaError_t \<Rightarrow> rmmError_t option" where
  "RMM_CHECK_CUDA cudaSuccess = None"
| "RMM_CHECK_CUDA (cudaErrorCode n) = Some RMM_ERROR_CUDA_ERROR"

text \<open>
  \<open>rmmInitialize\<close>: a null \<open>options\<close> pointer is \<open>None\<close>. The result is the status, the
  manager and the external calls made.
\<close>

definition rmmInitialize ::
  "api_constants \<Rightarrow> device_runtime \<Rightarrow> rmmOptions_t option \<Rightarrow> Manager
     \<Rightarrow> rmmError_t \<times> Manager \<times> external_call list" where
  "rmmInitialize K rt opts m =
     (let m1 = (case opts of None \<Rightarrow> m | Some v \<Rightarrow> setOptions v m)
      in if usePoolAllocator K m1 then
           (case RMM_CHECK_CUDA (fst (cudaGetDevice rt)) of
              Some e \<Rightarrow> (e, m1, [Call_cudaGetDevice])
            | None \<Rightarrow>
                let dev = \<lparr>device = snd (cudaGetDevice rt),
                           size_dev = initial_pool_size (getOptions m1),
                           numStreams = 1, streams = [0], streamSizes = 0\<rparr>;
                    flags = (if useManagedMemory K m1 then CNMEM_FLAGS_MANAGED K else 0)
                in (case RMM_CHECK_CNMEM (cnmemInit rt 1 dev flags) of
                      Some e \<Rightarrow> (e, m1, [Call_cudaGetDevice, Call_cnmemInit 1 dev flags])
                    | None \<Rightarrow>
                        (RMM_SUCCESS, m1, [Call_cudaGetDevice, Call_cnmemInit 1 dev flags])))
         else (RMM_SUCCESS, m1, []))"

definition rmmFinalize ::
  "api_constants \<Rightarrow> device_runtime \<Rightarrow> Manager \<Rightarrow> rmmError_t \<times> Manager \<times> external_call list" where
  "rmmFinalize K rt m =
     (if usePoolAllocator K m then
        (case RMM_CHECK_CNMEM (cnmemFinalize rt) of
           Some e \<Rightarrow> (e, m, [Call_cnmemFinalize])
         | None \<Rightarrow> (RMM_SUCCESS, finalize m, [Call_cnmemFinalize]))
      else (RMM_SUCCESS, finalize m, []))"

text \<open>
  \<open>rmmWriteLog\<close>: the body of the \<open>try\<close> block, which ends with the stream or with the
  exception thrown, and the function, which returns \<open>RMM_ERROR_IO\<close> from the handler.
\<close>

definition rmmWriteLog_try ::
  "file_system \<Rightarrow> (Logger \<Rightarrow> string) \<Rightarrow> Manager \<Rightarrow> string \<Rightarrow> ios_failure + ostream" where
  "rmmWriteLog_try fs csv_of m path =
     (case ofstream_open fs ofstream path of
        Inl e \<Rightarrow> Inl e
      | Inr csv \<Rightarrow> to_csv csv_of (getLogger m) csv)"

definition rmmWriteLog ::
  "file_system \<Rightarrow> (Logger \<Rightarrow> string) \<Rightarrow> Manager \<Rightarrow> string \<Rightarrow> rmmError_t" where
  "rmmWriteLog fs csv_of m path =
     (case rmmWriteLog_try fs csv_of m path of
        Inl e \<Rightarrow> RMM_ERROR_IO
      | Inr csv \<Rightarrow> RMM_SUCCESS)"

text \<open>
  \<open>rmmLogSize\<close> has no handler: an exception from the stream would leave the function.
\<close>

definition rmmLogSize :: "(Logger \<Rightarrow> string) \<Rightarrow> Manager \<Rightarrow> ios_failure + nat" where
  "rmmLogSize csv_of m =
     (case to_csv csv_of (getLogger m) ostringstream of
        Inl e \<Rightarrow> Inl e
      | Inr csv \<Rightarrow> Inr (length (str csv)))"

text \<open>
  \<open>std::string::copy(dest, count)\<close> writes the first \<open>count\<close> characters of the string,
  or all of them if there are fewer, to \<open>dest\<close> and appends nothing. The caller's memory
  from \<open>buffer\<close> on is a function from offsets to characters.
\<close>

definition string_copy :: "string \<Rightarrow> (nat \<Rightarrow> char) \<Rightarrow> nat \<Rightarrow> (nat \<Rightarrow> char)" where
  "string_copy s dest count = (\<lambda>i. if i < min count (length s) then s ! i else dest i)"

definition rmmGetLog ::
  "(Logger \<Rightarrow> string) \<Rightarrow> Manager \<Rightarrow> (nat \<Rightarrow> char) \<Rightarrow> nat \<Rightarrow> rmmError_t \<times> (nat \<Rightarrow> char)" where
  "rmmGetLog csv_of m buffer buffer_size =
     (case to_csv csv_of (getLogger m) ostringstream of
        Inl e \<Rightarrow> (RMM_ERROR_IO, buffer)
      | Inr csv \<Rightarrow>
          (RMM_SUCCESS, string_copy (str csv) buffer (min buffer_size (length (str csv)))))"

section \<open>Properties stated in the claims' own words\<close>

text \<open>
  The bytes of a block, and the blocks of a sequence overlapping nowhere: no byte belongs
  to two blocks at different positions.
\<close>

definition bytes_of :: "block \<Rightarrow> nat set" where
  "bytes_of b = {address b ..< address b + size_b b}"

fun non_overlapping :: "block list \<Rightarrow> bool" where
  "non_overlapping [] = True"
| "non_overlapping (b # bs) =
     ((\<forall>x \<in> set bs. bytes_of b \<inter> bytes_of x = {}) \<and> non_overlapping bs)"

text \<open>
  The invariant of a registry built by coalescing insertion: every entry has a positive
  size and ends strictly before every later entry begins. \<open>cover\<close> is the set of bytes
  the registry holds.
\<close>

definition ends_before :: "block \<Rightarrow> block \<Rightarrow> bool" where
  "ends_before a b = (address a + size_b a < address b)"

definition coalesced :: "free_list \<Rightarrow> bool" where
  "coalesced blocks = (sorted_wrt ends_before blocks \<and> (\<forall>x \<in> set blocks. 0 < size_b x))"

definition cover :: "free_list \<Rightarrow> nat set" where
  "cover blocks = (\<Union>x \<in> set blocks. bytes_of x)"

section \<open>Best fit: no block fits\<close>

lemma min_element_loop_bound:
  "smallest < length xs \<Longrightarrow> min_element_loop cmp xs first smallest < length xs"
proof (induction cmp xs first smallest rule: min_element_loop.induct)
  case (1 cmp xs first smallest)
  show ?case
  proof (cases "first < length xs")
    case True
    then show ?thesis
      using "1.IH" "1.prems" by (subst min_element_loop.simps) simp
  next
    case False
    then show ?thesis
      using "1.prems" by (subst min_element_loop.simps) simp
  qed
qed

lemma min_element_bound: "xs \<noteq> [] \<Longrightarrow> min_element cmp xs < length xs"
  by (simp add: min_element_def min_element_loop_bound)

text \<open>
  C3. When no entry of the registry fits the requested size, and so also on the empty
  registry, \<open>best_fit\<close> returns the default-constructed block (null address, size zero)
  and the registry is unchanged, in its contents and in its size.
\<close>

theorem best_fit_no_fit:
  assumes "\<forall>x \<in> set blocks. \<not> fits x sz"
  shows "best_fit blocks sz = (default_block, blocks)
       \<and> address (fst (best_fit blocks sz)) = 0
       \<and> size_b (fst (best_fit blocks sz)) = 0
       \<and> snd (best_fit blocks sz) = blocks
       \<and> size_fl (snd (best_fit blocks sz)) = size_fl blocks"
proof -
  have eq: "best_fit blocks sz = (default_block, blocks)"
  proof (cases "blocks = []")
    case True
    then show ?thesis by (simp add: best_fit_def min_element_def)
  next
    case False
    then have "min_element (\<lambda>lhs rhs. is_better_fit lhs sz rhs) blocks < length blocks"
      by (rule min_element_bound)
    then have "\<not> fits (blocks ! min_element (\<lambda>lhs rhs. is_better_fit lhs sz rhs) blocks) sz"
      using assms by simp
    then show ?thesis by (simp add: best_fit_def Let_def)
  qed
  then show ?thesis by (simp add: default_block_def)
qed

theorem best_fit_no_fit_witness:
  "list_all (\<lambda>x. \<not> fits x 300) [\<lparr>address = 0, size_b = 100\<rparr>, \<lparr>address = 1000, size_b = 50\<rparr>]
   \<and> best_fit [\<lparr>address = 0, size_b = 100\<rparr>, \<lparr>address = 1000, size_b = 50\<rparr>] 300
       = (default_block, [\<lparr>address = 0, size_b = 100\<rparr>, \<lparr>address = 1000, size_b = 50\<rparr>])
   \<and> best_fit [] 300 = (default_block, [])"
proof -
  have h: "\<forall>x \<in> set [\<lparr>address = 0, size_b = 100\<rparr>, \<lparr>address = 1000, size_b = 50\<rparr>]. \<not> fits x 300"
    by (simp add: fits_def)
  have e: "\<forall>x \<in> set ([] :: block list). \<not> fits x 300"
    by simp
  show ?thesis
    using h best_fit_no_fit [OF h] best_fit_no_fit [OF e] by simp
qed

section \<open>Best fit: some block fits\<close>

lemma min_element_loop_best:
  assumes "smallest < first" "first \<le> length xs"
    and "\<forall>j < first. fits (xs ! j) sz \<longrightarrow> fits (xs ! smallest) sz \<and> size_b (xs ! smallest) \<le> size_b (xs ! j)"
    and "\<forall>j < smallest. fits (xs ! j) sz \<longrightarrow> size_b (xs ! smallest) < size_b (xs ! j)"
  shows "let r = min_element_loop (\<lambda>lhs rhs. is_better_fit lhs sz rhs) xs first smallest in
           r < length xs
         \<and> (\<forall>j < length xs. fits (xs ! j) sz \<longrightarrow> fits (xs ! r) sz \<and> size_b (xs ! r) \<le> size_b (xs ! j))
         \<and> (\<forall>j < r. fits (xs ! j) sz \<longrightarrow> size_b (xs ! r) < size_b (xs ! j))"
  using assms
proof (induction "\<lambda>lhs rhs. is_better_fit lhs sz rhs" xs first smallest rule: min_element_loop.induct)
  case (1 xs first smallest)
  show ?case
  proof (cases "first < length xs")
    case False
    with "1.prems" have "first = length xs" by simp
    with "1.prems" False show ?thesis
      by (subst min_element_loop.simps) (simp add: Let_def)
  next
    case True
    let ?s = "if is_better_fit (xs ! first) sz (xs ! smallest) then first else smallest"
    have a: "?s < Suc first" using "1.prems"(1) by simp
    have b: "Suc first \<le> length xs" using True by simp
    have c: "\<forall>j < Suc first. fits (xs ! j) sz \<longrightarrow> fits (xs ! ?s) sz \<and> size_b (xs ! ?s) \<le> size_b (xs ! j)"
      using "1.prems"(3) by (auto simp: is_better_fit_def less_Suc_eq)
    have d: "\<forall>j < ?s. fits (xs ! j) sz \<longrightarrow> size_b (xs ! ?s) < size_b (xs ! j)"
      using "1.prems"(1,3,4) by (auto simp: is_better_fit_def)
    from "1.hyps" [OF True a b c d] True show ?thesis
      by (subst min_element_loop.simps) simp
  qed
qed

text \<open>
  C2. When at least one entry fits the requested size, \<open>best_fit\<close> returns an entry that
  fits and is no larger than any other entry that fits (the first such entry in list
  order), and the registry afterwards is the registry before without the entry at that
  one position. With free blocks of sizes 100, 50 and 200 and a request for 60 bytes it
  returns the 100-byte block, which is then no longer in the registry.
\<close>

theorem best_fit_smallest:
  assumes "\<exists>x \<in> set blocks. fits x sz"
  shows "\<exists>i < length blocks.
           best_fit blocks sz = (blocks ! i, take i blocks @ drop (Suc i) blocks)
         \<and> fits (blocks ! i) sz
         \<and> (\<forall>y \<in> set blocks. fits y sz \<longrightarrow> size_b (blocks ! i) \<le> size_b y)
         \<and> (\<forall>j < i. fits (blocks ! j) sz \<longrightarrow> size_b (blocks ! i) < size_b (blocks ! j))"
proof -
  let ?cmp = "\<lambda>lhs rhs. is_better_fit lhs sz rhs"
  let ?i = "min_element ?cmp blocks"
  from assms have ne: "blocks \<noteq> []" by auto
  then have len: "0 < length blocks" by simp
  have i_def: "?i = min_element_loop ?cmp blocks 1 0"
    using ne by (simp add: min_element_def)
  have inv: "?i < length blocks
      \<and> (\<forall>j < length blocks. fits (blocks ! j) sz \<longrightarrow>
            fits (blocks ! ?i) sz \<and> size_b (blocks ! ?i) \<le> size_b (blocks ! j))
      \<and> (\<forall>j < ?i. fits (blocks ! j) sz \<longrightarrow> size_b (blocks ! ?i) < size_b (blocks ! j))"
    using min_element_loop_best [of 0 1 blocks sz] len
    unfolding i_def by (simp add: Let_def)
  from assms obtain k where k: "k < length blocks" "fits (blocks ! k) sz"
    by (auto simp: in_set_conv_nth)
  with inv have fit: "fits (blocks ! ?i) sz" by blast
  have best: "\<forall>y \<in> set blocks. fits y sz \<longrightarrow> size_b (blocks ! ?i) \<le> size_b y"
    using inv by (auto simp: in_set_conv_nth)
  have "best_fit blocks sz = (blocks ! ?i, take ?i blocks @ drop (Suc ?i) blocks)"
    using inv fit by (simp add: best_fit_def erase_def Let_def)
  with inv fit best show ?thesis by blast
qed

theorem best_fit_smallest_witness:
  "(\<exists>x \<in> set [\<lparr>address = 0, size_b = 100\<rparr>, \<lparr>address = 1000, size_b = 50\<rparr>,
                \<lparr>address = 2000, size_b = 200\<rparr>]. fits x 60)
   \<and> best_fit [\<lparr>address = 0, size_b = 100\<rparr>, \<lparr>address = 1000, size_b = 50\<rparr>,
                \<lparr>address = 2000, size_b = 200\<rparr>] 60
       = (\<lparr>address = 0, size_b = 100\<rparr>,
          [\<lparr>address = 1000, size_b = 50\<rparr>, \<lparr>address = 2000, size_b = 200\<rparr>])"
proof -
  let ?B = "[\<lparr>address = 0, size_b = 100\<rparr>, \<lparr>address = 1000, size_b = 50\<rparr>,
             \<lparr>address = 2000, size_b = 200\<rparr>]"
  have h: "\<exists>x \<in> set ?B. fits x 60"
    by (simp add: fits_def)
  from best_fit_smallest [OF h] obtain i where i: "i < length ?B"
    and r: "best_fit ?B 60 = (?B ! i, take i ?B @ drop (Suc i) ?B)"
    and f: "fits (?B ! i) 60"
    and m: "\<forall>y \<in> set ?B. fits y 60 \<longrightarrow> size_b (?B ! i) \<le> size_b y"
    by blast
  from i have "i = 0 \<or> i = 1 \<or> i = 2" by auto
  with f m have "i = 0" by (auto simp: fits_def)
  with r h show ?thesis by simp
qed

section \<open>Coalescing insertion\<close>

subsection \<open>The result of an insertion, by the position of the new block\<close>

lemma find_if_append:
  "\<forall>y \<in> set ys. \<not> p y \<Longrightarrow> find_if p (ys @ zs) = length ys + find_if p zs"
  by (induction ys) auto

lemma next_it_middle:
  assumes "\<forall>y \<in> set ys. \<not> block_less b y" and "block_less b n"
  shows "next_it (ys @ n # zs) b = length ys"
  using assms by (simp add: next_it_def find_if_append)

lemma next_it_end:
  assumes "\<forall>y \<in> set ys. \<not> block_less b y"
  shows "next_it ys b = length ys"
  using find_if_append [of ys "\<lambda>i. block_less b i" "[]"] assms by (simp add: next_it_def)

lemma coalesced_emplace_front:
  assumes "block_less b n"
  shows "\<not> merge_prev (n # zs) b"
    and "coalesced_emplace (n # zs) b =
           (if is_contiguous_before b n then merge b n # zs else b # n # zs)"
proof -
  have nx: "next_it (n # zs) b = 0"
    using assms by (simp add: next_it_def)
  then have pv: "previous_it (n # zs) b = 0"
    by (simp add: previous_it_def)
  show np: "\<not> merge_prev (n # zs) b"
    using assms by (simp add: merge_prev_def pv is_contiguous_before_def block_less_def)
  have mn: "merge_next (n # zs) b = is_contiguous_before b n"
    by (simp add: merge_next_def nx)
  show "coalesced_emplace (n # zs) b =
           (if is_contiguous_before b n then merge b n # zs else b # n # zs)"
    by (simp add: coalesced_emplace_def is_empty_fl_def np mn nx emplace_def)
qed

lemma coalesced_emplace_back:
  assumes "\<forall>y \<in> set (ys @ [p]). \<not> block_less b y"
  shows "coalesced_emplace (ys @ [p]) b =
           (if is_contiguous_before p b then ys @ [merge p b] else ys @ [p, b])"
proof -
  have nx: "next_it (ys @ [p]) b = Suc (length ys)"
    using next_it_end [OF assms] by simp
  then have pv: "previous_it (ys @ [p]) b = length ys"
    by (simp add: previous_it_def)
  have mp: "merge_prev (ys @ [p]) b = is_contiguous_before p b"
    by (simp add: merge_prev_def pv)
  have mn: "\<not> merge_next (ys @ [p]) b"
    by (simp add: merge_next_def nx)
  show ?thesis
    by (simp add: coalesced_emplace_def is_empty_fl_def mp mn nx pv emplace_def)
qed

lemma coalesced_emplace_middle:
  assumes "\<forall>y \<in> set (ys @ [p]). \<not> block_less b y" and "block_less b n"
  shows "coalesced_emplace (ys @ p # n # zs) b =
           (if is_contiguous_before p b \<and> is_contiguous_before b n
              then ys @ merge (merge p b) n # zs
            else if is_contiguous_before p b then ys @ merge p b # n # zs
            else if is_contiguous_before b n then ys @ p # merge b n # zs
            else ys @ p # b # n # zs)"
proof -
  have nx: "next_it (ys @ p # n # zs) b = Suc (length ys)"
    using next_it_middle [OF assms, of zs] by simp
  then have pv: "previous_it (ys @ p # n # zs) b = length ys"
    by (simp add: previous_it_def)
  have mp: "merge_prev (ys @ p # n # zs) b = is_contiguous_before p b"
    by (simp add: merge_prev_def pv)
  have mn: "merge_next (ys @ p # n # zs) b = is_contiguous_before b n"
    by (simp add: merge_next_def nx nth_append)
  show ?thesis
    by (simp add: coalesced_emplace_def is_empty_fl_def mp mn nx pv emplace_def erase_def
        nth_append list_update_append Let_def)
qed

lemma disjoint_positive:
  assumes "0 < size_b a" and "0 < size_b b" and "bytes_of a \<inter> bytes_of b = {}"
  shows "address a + size_b a \<le> address b \<or> address b + size_b b \<le> address a"
proof (rule ccontr)
  assume neg: "\<not> ?thesis"
  let ?m = "max (address a) (address b)"
  have "?m \<in> bytes_of a" and "?m \<in> bytes_of b"
    using assms(1,2) neg by (auto simp: bytes_of_def)
  with assms(3) show False by blast
qed

lemma bytes_of_merge:
  "is_contiguous_before a b \<Longrightarrow> bytes_of (merge a b) = bytes_of a \<union> bytes_of b"
  by (auto simp: is_contiguous_before_def merge_def bytes_of_def)

lemma cover_simps [simp]:
  "cover [] = {}"
  "cover (x # xs) = bytes_of x \<union> cover xs"
  "cover (xs @ ys) = cover xs \<union> cover ys"
  by (auto simp: cover_def)

lemma split_at_next:
  obtains ys zs where "xs = ys @ zs" and "\<forall>y \<in> set ys. \<not> block_less b y"
    and "zs = [] \<or> block_less b (hd zs)"
proof
  show "xs = takeWhile (\<lambda>y. \<not> block_less b y) xs @ dropWhile (\<lambda>y. \<not> block_less b y) xs"
    by simp
  show "\<forall>y \<in> set (takeWhile (\<lambda>y. \<not> block_less b y) xs). \<not> block_less b y"
    by (auto dest: set_takeWhileD)
  show "dropWhile (\<lambda>y. \<not> block_less b y) xs = []
      \<or> block_less b (hd (dropWhile (\<lambda>y. \<not> block_less b y) xs))"
    using hd_dropWhile [of "\<lambda>y. \<not> block_less b y" xs] by auto
qed

lemma coalesced_emplace_empty: "coalesced_emplace [] b = [b]"
  by (simp add: coalesced_emplace_def is_empty_fl_def emplace_def)

lemma coalesced_emplace_invariant:
  assumes inv: "coalesced xs" and pos: "0 < size_b b" and dis: "bytes_of b \<inter> cover xs = {}"
  shows "coalesced (coalesced_emplace xs b)
       \<and> cover (coalesced_emplace xs b) = cover xs \<union> bytes_of b"
proof -
  obtain ys zs where xs: "xs = ys @ zs" and le: "\<forall>y \<in> set ys. \<not> block_less b y"
    and gt: "zs = [] \<or> block_less b (hd zs)"
    by (rule split_at_next)
  have apart: "address x + size_b x \<le> address b \<or> address b + size_b b \<le> address x"
    if "x \<in> set xs" for x
  proof -
    from that inv have "0 < size_b x" by (simp add: coalesced_def)
    moreover from that dis have "bytes_of x \<inter> bytes_of b = {}"
      by (auto simp: cover_def)
    ultimately show ?thesis using pos by (simp add: disjoint_positive)
  qed
  have before: "address y + size_b y \<le> address b" if "y \<in> set ys" for y
  proof -
    from that le have "address y \<le> address b" by (auto simp: block_less_def)
    moreover from that have "y \<in> set xs" by (simp add: xs)
    ultimately show ?thesis using apart [of y] pos by auto
  qed
  show ?thesis
  proof (cases ys rule: rev_cases)
    case Nil
    show ?thesis
    proof (cases zs)
      case Nil
      with \<open>ys = []\<close> pos show ?thesis
        by (simp add: xs coalesced_emplace_empty coalesced_def)
    next
      case (Cons n zs')
      with gt have bn: "block_less b n" by simp
      have an: "address b + size_b b \<le> address n"
        using apart [of n] bn pos by (auto simp: xs Cons \<open>ys = []\<close> block_less_def)
      have eq: "coalesced_emplace xs b =
          (if is_contiguous_before b n then merge b n # zs' else b # n # zs')"
        using coalesced_emplace_front(2) [OF bn] by (simp add: xs Cons \<open>ys = []\<close>)
      have c: "coalesced (n # zs')"
        using inv by (simp add: xs Cons \<open>ys = []\<close>)
      show ?thesis
      proof (cases "is_contiguous_before b n")
        case True
        have "coalesced (merge b n # zs')"
          using c pos True
          by (auto simp: coalesced_def ends_before_def merge_def is_contiguous_before_def)
        then show ?thesis
          unfolding eq using True by (auto simp: xs Cons \<open>ys = []\<close> bytes_of_merge)
      next
        case False
        have "coalesced (b # n # zs')"
          using c pos False an
          by (auto simp: coalesced_def ends_before_def is_contiguous_before_def)
        then show ?thesis
          unfolding eq using False by (auto simp: xs Cons \<open>ys = []\<close>)
      qed
    qed
  next
    case (snoc ys' p)
    have lep: "\<forall>y \<in> set (ys' @ [p]). \<not> block_less b y"
      using le by (simp add: snoc)
    have pb: "address p + size_b p \<le> address b"
      using before [of p] by (simp add: snoc)
    have yb: "\<forall>y \<in> set ys'. address y + size_b y < address b"
    proof
      fix y assume "y \<in> set ys'"
      with inv have "ends_before y p"
        by (auto simp: coalesced_def xs snoc sorted_wrt_append)
      moreover from inv have "0 < size_b p"
        by (simp add: coalesced_def xs snoc)
      ultimately show "address y + size_b y < address b"
        using pb by (simp add: ends_before_def)
    qed
    show ?thesis
    proof (cases zs)
      case Nil
      have eq: "coalesced_emplace xs b =
          (if is_contiguous_before p b then ys' @ [merge p b] else ys' @ [p, b])"
        using coalesced_emplace_back [OF lep] by (simp add: xs Nil snoc)
      have c: "coalesced (ys' @ [p])"
        using inv by (simp add: xs Nil snoc)
      show ?thesis
      proof (cases "is_contiguous_before p b")
        case True
        have "coalesced (ys' @ [merge p b])"
          using c pos
          by (auto simp: coalesced_def sorted_wrt_append ends_before_def merge_def)
        then show ?thesis
          unfolding eq using True by (auto simp: xs Nil snoc bytes_of_merge)
      next
        case False
        have "coalesced (ys' @ [p, b])"
          using c pos False pb yb
          by (auto simp: coalesced_def sorted_wrt_append ends_before_def is_contiguous_before_def)
        then show ?thesis
          unfolding eq using False by (auto simp: xs Nil snoc)
      qed
    next
      case (Cons n zs')
      with gt have bn: "block_less b n" by simp
      have an: "address b + size_b b \<le> address n"
        using apart [of n] bn pos by (auto simp: xs Cons block_less_def)
      have eq: "coalesced_emplace xs b =
          (if is_contiguous_before p b \<and> is_contiguous_before b n
             then ys' @ merge (merge p b) n # zs'
           else if is_contiguous_before p b then ys' @ merge p b # n # zs'
           else if is_contiguous_before b n then ys' @ p # merge b n # zs'
           else ys' @ p # b # n # zs')"
        using coalesced_emplace_middle [OF lep bn] by (simp add: xs Cons snoc)
      have c: "coalesced (ys' @ p # n # zs')"
        using inv by (simp add: xs Cons snoc)
      have bz: "\<forall>z \<in> set zs'. address b + size_b b < address z"
      proof
        fix z assume "z \<in> set zs'"
        with c have "ends_before n z"
          by (auto simp: coalesced_def sorted_wrt_append)
        then show "address b + size_b b < address z"
          using an by (simp add: ends_before_def)
      qed
      consider (both) "is_contiguous_before p b" "is_contiguous_before b n"
        | (prev) "is_contiguous_before p b" "\<not> is_contiguous_before b n"
        | (nxt) "\<not> is_contiguous_before p b" "is_contiguous_before b n"
        | (none) "\<not> is_contiguous_before p b" "\<not> is_contiguous_before b n"
        by blast
      then show ?thesis
      proof cases
        case both
        have m: "is_contiguous_before (merge p b) n"
          using both by (simp add: is_contiguous_before_def merge_def)
        have "coalesced (ys' @ merge (merge p b) n # zs')"
          using c pos both
          by (auto simp: coalesced_def sorted_wrt_append ends_before_def merge_def
              is_contiguous_before_def)
        then show ?thesis
          unfolding eq using both m by (auto simp: xs Cons snoc bytes_of_merge)
      next
        case prev
        have "coalesced (ys' @ merge p b # n # zs')"
          using c pos prev an bz
          by (auto simp: coalesced_def sorted_wrt_append ends_before_def merge_def
              is_contiguous_before_def)
        then show ?thesis
          unfolding eq using prev by (auto simp: xs Cons snoc bytes_of_merge)
      next
        case nxt
        have "coalesced (ys' @ p # merge b n # zs')"
          using c pos nxt pb yb
          by (auto simp: coalesced_def sorted_wrt_append ends_before_def merge_def
              is_contiguous_before_def)
        then show ?thesis
          unfolding eq using nxt by (auto simp: xs Cons snoc bytes_of_merge)
      next
        case none
        have "coalesced (ys' @ p # b # n # zs')"
          using c pos none pb yb an bz
          by (auto simp: coalesced_def sorted_wrt_append ends_before_def
              is_contiguous_before_def)
        then show ?thesis
          unfolding eq using none by (auto simp: xs Cons snoc)
      qed
    qed
  qed
qed

lemma insert_range_invariant:
  assumes "coalesced xs" and "\<forall>b \<in> set bs. 0 < size_b b" and "non_overlapping bs"
    and "\<forall>b \<in> set bs. bytes_of b \<inter> cover xs = {}"
  shows "coalesced (insert_range xs bs)"
  using assms
proof (induction bs arbitrary: xs)
  case Nil
  then show ?case by simp
next
  case (Cons b bs)
  have step: "coalesced (coalesced_emplace xs b)
      \<and> cover (coalesced_emplace xs b) = cover xs \<union> bytes_of b"
    using Cons.prems by (intro coalesced_emplace_invariant) simp_all
  have "\<forall>x \<in> set bs. bytes_of x \<inter> cover (coalesced_emplace xs b) = {}"
    using Cons.prems step by auto
  with Cons.prems step have "coalesced (insert_range (coalesced_emplace xs b) bs)"
    by (intro Cons.IH) simp_all
  then show ?case by (simp add: insert_block_def)
qed

lemma coalesced_not_contiguous:
  assumes "coalesced xs" and "x \<in> set xs" and "y \<in> set xs"
  shows "\<not> is_contiguous_before x y"
proof -
  from assms obtain i j where i: "i < length xs" "xs ! i = x" and j: "j < length xs" "xs ! j = y"
    by (auto simp: in_set_conv_nth)
  have pos: "0 < size_b x" "0 < size_b y"
    using assms by (auto simp: coalesced_def)
  have srt: "sorted_wrt ends_before xs"
    using assms(1) by (simp add: coalesced_def)
  consider "i < j" | "i = j" | "j < i" by linarith
  then show ?thesis
  proof cases
    case 1
    with srt i j have "ends_before x y" by (auto simp: sorted_wrt_iff_nth_less)
    then show ?thesis by (simp add: ends_before_def is_contiguous_before_def)
  next
    case 2
    with i j pos show ?thesis by (auto simp: is_contiguous_before_def)
  next
    case 3
    with srt i j have "ends_before y x" by (auto simp: sorted_wrt_iff_nth_less)
    with pos show ?thesis by (simp add: ends_before_def is_contiguous_before_def)
  qed
qed

subsection \<open>Insertion in front of every entry\<close>

text \<open>
  C8. In a non-empty registry whose entries all have positive size, inserting a block
  whose address is less than the address of every entry computes a predecessor that is
  the successor itself (the first entry) and never takes a predecessor-coalescing
  branch: the new block is merged with the old first entry when it is contiguous before
  it, and becomes a new first entry otherwise.
\<close>

theorem first_entry_insertion:
  assumes "blocks \<noteq> []"
    and "\<forall>x \<in> set blocks. 0 < size_b x"
    and "\<forall>x \<in> set blocks. address b < address x"
  shows "previous_it blocks b = next_it blocks b
       \<and> \<not> merge_prev blocks b
       \<and> coalesced_emplace blocks b =
           (if is_contiguous_before b (hd blocks) then merge b (hd blocks) # tl blocks
            else b # blocks)"
proof -
  from assms(1) obtain n zs where blocks: "blocks = n # zs"
    by (cases blocks) auto
  with assms(3) have bn: "block_less b n"
    by (simp add: block_less_def)
  then have "next_it (n # zs) b = 0"
    by (simp add: next_it_def)
  then have "previous_it (n # zs) b = next_it (n # zs) b"
    by (simp add: previous_it_def)
  with coalesced_emplace_front [OF bn, of zs] show ?thesis
    by (simp add: blocks)
qed

theorem first_entry_insertion_witness:
  "[\<lparr>address = 10, size_b = 10\<rparr>, \<lparr>address = 30, size_b = 5\<rparr>] \<noteq> []
   \<and> list_all (\<lambda>x. 0 < size_b x) [\<lparr>address = 10, size_b = 10\<rparr>, \<lparr>address = 30, size_b = 5\<rparr>]
   \<and> list_all (\<lambda>x. address \<lparr>address = 0, size_b = 10\<rparr> < address x)
         [\<lparr>address = 10, size_b = 10\<rparr>, \<lparr>address = 30, size_b = 5\<rparr>]
   \<and> \<not> merge_prev [\<lparr>address = 10, size_b = 10\<rparr>, \<lparr>address = 30, size_b = 5\<rparr>]
         \<lparr>address = 0, size_b = 10\<rparr>
   \<and> coalesced_emplace [\<lparr>address = 10, size_b = 10\<rparr>, \<lparr>address = 30, size_b = 5\<rparr>]
         \<lparr>address = 0, size_b = 10\<rparr>
       = [\<lparr>address = 0, size_b = 20\<rparr>, \<lparr>address = 30, size_b = 5\<rparr>]"
proof -
  let ?B = "[\<lparr>address = 10, size_b = 10\<rparr>, \<lparr>address = 30, size_b = 5\<rparr>]"
  let ?b = "\<lparr>address = 0, size_b = 10\<rparr>"
  have h1: "?B \<noteq> []" by simp
  have h2: "\<forall>x \<in> set ?B. 0 < size_b x" by simp
  have h3: "\<forall>x \<in> set ?B. address ?b < address x" by simp
  from first_entry_insertion [OF h1 h2 h3] h2 h3 show ?thesis
    by (simp add: is_contiguous_before_def merge_def)
qed

subsection \<open>Sequences of insertions\<close>

text \<open>
  A block of size zero overlaps nothing. Inserted after a block that begins at the same
  address, it is placed behind that block, as a second entry that is contiguous before
  the first.
\<close>

theorem coalescing_counterexample:
  "non_overlapping [\<lparr>address = 0, size_b = 10\<rparr>, \<lparr>address = 0, size_b = 0\<rparr>]
   \<and> insert_range [] [\<lparr>address = 0, size_b = 10\<rparr>, \<lparr>address = 0, size_b = 0\<rparr>]
       = [\<lparr>address = 0, size_b = 10\<rparr>, \<lparr>address = 0, size_b = 0\<rparr>]
   \<and> is_contiguous_before \<lparr>address = 0, size_b = 0\<rparr> \<lparr>address = 0, size_b = 10\<rparr>"
  by (simp add: bytes_of_def insert_block_def coalesced_emplace_def is_empty_fl_def
      emplace_def next_it_def previous_it_def merge_prev_def merge_next_def
      block_less_def is_contiguous_before_def)

text \<open>
  C1, amended. For every sequence of insertions of mutually non-overlapping blocks of
  positive size into an initially empty registry, no two entries of the registry satisfy
  \<open>is_contiguous_before\<close> after the insertions. Inserting \<open>[0,10)\<close> and \<open>[10,20)\<close>, in
  either order, leaves exactly the one entry \<open>[0,20)\<close>. When the predecessor and the
  successor of an inserted block are both contiguous with it, the three are merged into
  the predecessor's entry and the successor's entry is erased.
\<close>

theorem coalescing_positive_sizes:
  "((\<forall>b \<in> set bs. 0 < size_b b) \<and> non_overlapping bs \<longrightarrow>
      (\<forall>x \<in> set (insert_range [] bs). \<forall>y \<in> set (insert_range [] bs).
         \<not> is_contiguous_before x y))
   \<and> insert_range [] [\<lparr>address = 0, size_b = 10\<rparr>, \<lparr>address = 10, size_b = 10\<rparr>]
       = [\<lparr>address = 0, size_b = 20\<rparr>]
   \<and> insert_range [] [\<lparr>address = 10, size_b = 10\<rparr>, \<lparr>address = 0, size_b = 10\<rparr>]
       = [\<lparr>address = 0, size_b = 20\<rparr>]
   \<and> ((\<forall>y \<in> set (ys @ [p]). \<not> block_less b y) \<and> block_less b n
        \<and> is_contiguous_before p b \<and> is_contiguous_before b n \<longrightarrow>
      coalesced_emplace (ys @ p # n # zs) b
        = ys @ \<lparr>address = address p, size_b = size_b p + size_b b + size_b n\<rparr> # zs)"
proof (intro conjI impI)
  assume a: "(\<forall>b \<in> set bs. 0 < size_b b) \<and> non_overlapping bs"
  have "coalesced []" by (simp add: coalesced_def)
  with a have "coalesced (insert_range [] bs)"
    by (intro insert_range_invariant) simp_all
  then show "\<forall>x \<in> set (insert_range [] bs). \<forall>y \<in> set (insert_range [] bs).
      \<not> is_contiguous_before x y"
    by (blast dest: coalesced_not_contiguous)
next
  show "insert_range [] [\<lparr>address = 0, size_b = 10\<rparr>, \<lparr>address = 10, size_b = 10\<rparr>]
       = [\<lparr>address = 0, size_b = 20\<rparr>]"
    by (simp add: insert_block_def coalesced_emplace_def is_empty_fl_def
      emplace_def next_it_def previous_it_def merge_prev_def merge_next_def
      block_less_def is_contiguous_before_def merge_def)
next
  show "insert_range [] [\<lparr>address = 10, size_b = 10\<rparr>, \<lparr>address = 0, size_b = 10\<rparr>]
       = [\<lparr>address = 0, size_b = 20\<rparr>]"
    by (simp add: insert_block_def coalesced_emplace_def is_empty_fl_def
      emplace_def next_it_def previous_it_def merge_prev_def merge_next_def
      block_less_def is_contiguous_before_def merge_def)
next
  assume a: "(\<forall>y \<in> set (ys @ [p]). \<not> block_less b y) \<and> block_less b n
        \<and> is_contiguous_before p b \<and> is_contiguous_before b n"
  then have "coalesced_emplace (ys @ p # n # zs) b = ys @ merge (merge p b) n # zs"
    using coalesced_emplace_middle [of ys p b n zs] by simp
  then show "coalesced_emplace (ys @ p # n # zs) b
        = ys @ \<lparr>address = address p, size_b = size_b p + size_b b + size_b n\<rparr> # zs"
    by (simp add: merge_def)
qed

theorem coalescing_positive_sizes_witness:
  "list_all (\<lambda>b. 0 < size_b b)
       [\<lparr>address = 10, size_b = 10\<rparr>, \<lparr>address = 30, size_b = 5\<rparr>,
        \<lparr>address = 0, size_b = 10\<rparr>, \<lparr>address = 20, size_b = 10\<rparr>]
   \<and> non_overlapping
       [\<lparr>address = 10, size_b = 10\<rparr>, \<lparr>address = 30, size_b = 5\<rparr>,
        \<lparr>address = 0, size_b = 10\<rparr>, \<lparr>address = 20, size_b = 10\<rparr>]
   \<and> list_all
       (\<lambda>x. list_all (\<lambda>y. \<not> is_contiguous_before x y)
          (insert_range []
             [\<lparr>address = 10, size_b = 10\<rparr>, \<lparr>address = 30, size_b = 5\<rparr>,
              \<lparr>address = 0, size_b = 10\<rparr>, \<lparr>address = 20, size_b = 10\<rparr>]))
       (insert_range []
          [\<lparr>address = 10, size_b = 10\<rparr>, \<lparr>address = 30, size_b = 5\<rparr>,
           \<lparr>address = 0, size_b = 10\<rparr>, \<lparr>address = 20, size_b = 10\<rparr>])
   \<and> \<not> block_less \<lparr>address = 10, size_b = 10\<rparr> \<lparr>address = 0, size_b = 10\<rparr>
   \<and> block_less \<lparr>address = 10, size_b = 10\<rparr> \<lparr>address = 20, size_b = 10\<rparr>
   \<and> is_contiguous_before \<lparr>address = 0, size_b = 10\<rparr> \<lparr>address = 10, size_b = 10\<rparr>
   \<and> is_contiguous_before \<lparr>address = 10, size_b = 10\<rparr> \<lparr>address = 20, size_b = 10\<rparr>
   \<and> coalesced_emplace [\<lparr>address = 0, size_b = 10\<rparr>, \<lparr>address = 20, size_b = 10\<rparr>]
         \<lparr>address = 10, size_b = 10\<rparr>
       = [\<lparr>address = 0, size_b = 30\<rparr>]"
proof -
  let ?B = "[\<lparr>address = 10, size_b = 10\<rparr>, \<lparr>address = 30, size_b = 5\<rparr>,
             \<lparr>address = 0, size_b = 10\<rparr>, \<lparr>address = 20, size_b = 10\<rparr>]"
  let ?p = "\<lparr>address = 0, size_b = 10\<rparr>"
  let ?b = "\<lparr>address = 10, size_b = 10\<rparr>"
  let ?n = "\<lparr>address = 20, size_b = 10\<rparr>"
  note inst = coalescing_positive_sizes [where bs = ?B and ys = "[]" and p = ?p and b = ?b
      and n = ?n and zs = "[]"]
  have h1: "\<forall>b \<in> set ?B. 0 < size_b b" by simp
  have h2: "non_overlapping ?B" by (simp add: bytes_of_def)
  have h3: "\<forall>y \<in> set ([] @ [?p]). \<not> block_less ?b y" by (simp add: block_less_def)
  have h4: "block_less ?b ?n" by (simp add: block_less_def)
  have h5: "is_contiguous_before ?p ?b" by (simp add: is_contiguous_before_def)
  have h6: "is_contiguous_before ?b ?n" by (simp add: is_contiguous_before_def)
  have t1: "\<forall>x \<in> set (insert_range [] ?B). \<forall>y \<in> set (insert_range [] ?B).
      \<not> is_contiguous_before x y"
    using inst h1 h2 by blast
  have t2: "coalesced_emplace ([] @ ?p # ?n # []) ?b
      = [] @ \<lparr>address = address ?p, size_b = size_b ?p + size_b ?b + size_b ?n\<rparr> # []"
    using inst h3 h4 h5 h6 by blast
  have c1: "list_all (\<lambda>b. 0 < size_b b) ?B"
    using h1 unfolding list_all_iff .
  have c2: "list_all (\<lambda>x. list_all (\<lambda>y. \<not> is_contiguous_before x y) (insert_range [] ?B))
      (insert_range [] ?B)"
    using t1 unfolding list_all_iff .
  have c3: "\<not> block_less ?b ?p"
    using h3 by simp
  have c4: "coalesced_emplace [?p, ?n] ?b = [\<lparr>address = 0, size_b = 30\<rparr>]"
    using t2 by simp
  from c1 h2 c2 c3 h4 h5 h6 c4 show ?thesis by blast
qed

section \<open>Manager\<close>

subsection \<open>Mode queries\<close>

text \<open>
  The query for the default allocator is an equality test, and for no value of the
  enumerator \<open>CudaDefaultAllocation\<close> does it agree with a mask test on every mode.
\<close>

lemma default_query_is_no_mask_test:
  "\<exists>m. useCudaDefaultAllocator K m
        \<noteq> (allocation_mode (getOptions m) AND CudaDefaultAllocation K \<noteq> 0)"
proof -
  let ?D = "CudaDefaultAllocation K"
  let ?m = "\<lambda>v. \<lparr>registered_streams = {}, logger = Logger_init 0,
      options = \<lparr>allocation_mode = v, managed_memory = False, initial_pool_size = 0\<rparr>\<rparr>"
  consider "?D = 0" | "?D \<noteq> 0" "?D \<noteq> - 1" | "?D = - 1" by blast
  then show ?thesis
  proof cases
    case 1
    then have "useCudaDefaultAllocator K (?m 0)
        \<noteq> (allocation_mode (getOptions (?m 0)) AND ?D \<noteq> 0)"
      by (simp add: useCudaDefaultAllocator_def getOptions_def)
    then show ?thesis by blast
  next
    case 2
    then have "useCudaDefaultAllocator K (?m (- 1))
        \<noteq> (allocation_mode (getOptions (?m (- 1))) AND ?D \<noteq> 0)"
      by (simp add: useCudaDefaultAllocator_def getOptions_def)
    then show ?thesis by blast
  next
    case 3
    then have "useCudaDefaultAllocator K (?m 1)
        \<noteq> (allocation_mode (getOptions (?m 1)) AND ?D \<noteq> 0)"
      by (simp add: useCudaDefaultAllocator_def getOptions_def)
    then show ?thesis by blast
  qed
qed

text \<open>
  With the enumerators numbered 0, 1 and 2 (default, pool, managed), the manager as
  constructed has the mode 0: the default-allocator query is true, and the mode has no
  bit in common with the flag 0.
\<close>

theorem default_query_counterexample:
  "useCudaDefaultAllocator
     \<lparr>CudaDefaultAllocation = 0, PoolAllocation = 1, CudaManagedMemory = 2,
      CNMEM_FLAGS_MANAGED = 4\<rparr>
     (Manager_init \<lparr>CudaDefaultAllocation = 0, PoolAllocation = 1, CudaManagedMemory = 2,
      CNMEM_FLAGS_MANAGED = 4\<rparr> 0)
   \<and> \<not> (allocation_mode (getOptions (Manager_init \<lparr>CudaDefaultAllocation = 0,
          PoolAllocation = 1, CudaManagedMemory = 2, CNMEM_FLAGS_MANAGED = 4\<rparr> 0))
        AND CudaDefaultAllocation \<lparr>CudaDefaultAllocation = 0, PoolAllocation = 1,
          CudaManagedMemory = 2, CNMEM_FLAGS_MANAGED = 4\<rparr> \<noteq> 0)"
  by (simp add: useCudaDefaultAllocator_def getOptions_def Manager_init_def)

text \<open>
  C5, amended. For every configured allocation mode, the pool query returns true exactly
  when the bitwise AND of the mode with the pool flag is not zero, the managed-memory
  query returns true exactly when the bitwise AND of the mode with the managed-memory
  flag is not zero, and the default-allocator query returns true exactly when the mode
  equals the default-allocation value.
\<close>

theorem mode_queries:
  "usePoolAllocator K m = (allocation_mode (getOptions m) AND PoolAllocation K \<noteq> 0)
   \<and> useManagedMemory K m = (allocation_mode (getOptions m) AND CudaManagedMemory K \<noteq> 0)
   \<and> useCudaDefaultAllocator K m = (allocation_mode (getOptions m) = CudaDefaultAllocation K)"
  by (auto simp: usePoolAllocator_def useManagedMemory_def useCudaDefaultAllocator_def)

subsection \<open>Finalize\<close>

lemma finalize_setOptions: "setOptions v (finalize m) = finalize (setOptions v m)"
  by (simp add: setOptions_def finalize_def)

lemma usePoolAllocator_finalize: "usePoolAllocator K (finalize m) = usePoolAllocator K m"
  by (simp add: usePoolAllocator_def getOptions_def finalize_def)

lemma useManagedMemory_finalize: "useManagedMemory K (finalize m) = useManagedMemory K m"
  by (simp add: useManagedMemory_def getOptions_def finalize_def)

lemma getOptions_finalize: "getOptions (finalize m) = getOptions m"
  by (simp add: getOptions_def finalize_def)

lemma rmmInitialize_finalize:
  "rmmInitialize K rt opts (finalize m) =
     (case rmmInitialize K rt opts m of (e, m', calls) \<Rightarrow> (e, finalize m', calls))"
  by (cases opts)
    (simp_all add: rmmInitialize_def Let_def finalize_setOptions getOptions_finalize
      usePoolAllocator_finalize useManagedMemory_finalize split: option.splits)

text \<open>
  C4. For every manager state, \<open>finalize\<close> empties the set of registered streams and
  clears the logger (no events, no live pointers); the options are unchanged; and the
  manager can go through a further initialize cycle, which proceeds on the finalized
  manager exactly as on the manager before, with the options it kept.
\<close>

theorem finalize_clears_streams_and_logger:
  "registered_streams (finalize m) = {}
   \<and> logger (finalize m) = clear_log (logger m)
   \<and> events (getLogger (finalize m)) = []
   \<and> current_allocations (getLogger (finalize m)) = {}
   \<and> getOptions (finalize m) = getOptions m
   \<and> rmmInitialize K rt opts (finalize m) =
       (case rmmInitialize K rt opts m of (e, m', calls) \<Rightarrow> (e, finalize m', calls))"
  by (simp add: rmmInitialize_finalize)
    (simp add: finalize_def clear_log_def getLogger_def getOptions_def)

subsection \<open>Initialize with a null options pointer\<close>

lemma setOptions_same: "setOptions (options m) m = m"
  by (simp add: setOptions_def)

text \<open>
  C9. For every prior state of the manager, \<open>rmmInitialize\<close> with a null options pointer
  leaves the manager, and so its options, unchanged (a non-null pointer makes the options
  pointed to the manager's options), and goes on to the mode-dependent
  initialization with the stored options, as if they had been passed again: without pool
  mode it returns success and calls nothing; in pool mode it queries the device and, if
  that succeeds, calls \<open>cnmemInit\<close> with the stored initial pool size and with the
  managed flag that the stored mode selects.
\<close>

theorem initialize_null_options:
  "fst (snd (rmmInitialize K rt None m)) = m
   \<and> getOptions (fst (snd (rmmInitialize K rt None m))) = getOptions m
   \<and> rmmInitialize K rt None m = rmmInitialize K rt (Some (getOptions m)) m
   \<and> getOptions (fst (snd (rmmInitialize K rt (Some v) m))) = v
   \<and> (\<not> usePoolAllocator K m \<longrightarrow> rmmInitialize K rt None m = (RMM_SUCCESS, m, []))
   \<and> (usePoolAllocator K m \<longrightarrow>
        hd (snd (snd (rmmInitialize K rt None m))) = Call_cudaGetDevice)
   \<and> (usePoolAllocator K m \<and> fst (cudaGetDevice rt) = cudaSuccess \<longrightarrow>
        snd (snd (rmmInitialize K rt None m)) =
          [Call_cudaGetDevice,
           Call_cnmemInit 1
             \<lparr>device = snd (cudaGetDevice rt),
              size_dev = initial_pool_size (getOptions m),
              numStreams = 1, streams = [0], streamSizes = 0\<rparr>
             (if useManagedMemory K m then CNMEM_FLAGS_MANAGED K else 0)])"
proof -
  have same: "rmmInitialize K rt None m = rmmInitialize K rt (Some (getOptions m)) m"
    by (simp add: rmmInitialize_def getOptions_def setOptions_same)
  have mgr: "fst (snd (rmmInitialize K rt None m)) = m"
    by (simp add: rmmInitialize_def Let_def split: option.splits)
  have nopool: "\<not> usePoolAllocator K m \<longrightarrow> rmmInitialize K rt None m = (RMM_SUCCESS, m, [])"
    by (simp add: rmmInitialize_def)
  have first: "usePoolAllocator K m \<longrightarrow>
      hd (snd (snd (rmmInitialize K rt None m))) = Call_cudaGetDevice"
    by (simp add: rmmInitialize_def Let_def split: option.splits)
  have pool: "usePoolAllocator K m \<and> fst (cudaGetDevice rt) = cudaSuccess \<longrightarrow>
        snd (snd (rmmInitialize K rt None m)) =
          [Call_cudaGetDevice,
           Call_cnmemInit 1
             \<lparr>device = snd (cudaGetDevice rt),
              size_dev = initial_pool_size (getOptions m),
              numStreams = 1, streams = [0], streamSizes = 0\<rparr>
             (if useManagedMemory K m then CNMEM_FLAGS_MANAGED K else 0)]"
    by (simp add: rmmInitialize_def Let_def split: option.splits)
  have copied: "getOptions (fst (snd (rmmInitialize K rt (Some v) m))) = v"
    by (simp add: rmmInitialize_def Let_def setOptions_def getOptions_def split: option.splits)
  from same mgr copied nopool first pool show ?thesis by simp
qed

theorem initialize_null_options_witness:
  "\<not> usePoolAllocator
       \<lparr>CudaDefaultAllocation = 0, PoolAllocation = 1, CudaManagedMemory = 2,
        CNMEM_FLAGS_MANAGED = 4\<rparr>
       \<lparr>registered_streams = {7}, logger = Logger_init 0,
        options = \<lparr>allocation_mode = 0, managed_memory = False, initial_pool_size = 0\<rparr>\<rparr>
   \<and> rmmInitialize
       \<lparr>CudaDefaultAllocation = 0, PoolAllocation = 1, CudaManagedMemory = 2,
        CNMEM_FLAGS_MANAGED = 4\<rparr>
       \<lparr>cudaGetDevice = (cudaSuccess, 0), cnmemInit = (\<lambda>n d f. CNMEM_STATUS_SUCCESS),
        cnmemFinalize = CNMEM_STATUS_SUCCESS\<rparr>
       None
       \<lparr>registered_streams = {7}, logger = Logger_init 0,
        options = \<lparr>allocation_mode = 0, managed_memory = False, initial_pool_size = 0\<rparr>\<rparr>
     = (RMM_SUCCESS,
        \<lparr>registered_streams = {7}, logger = Logger_init 0,
         options = \<lparr>allocation_mode = 0, managed_memory = False, initial_pool_size = 0\<rparr>\<rparr>,
        [])
   \<and> usePoolAllocator
       \<lparr>CudaDefaultAllocation = 0, PoolAllocation = 1, CudaManagedMemory = 2,
        CNMEM_FLAGS_MANAGED = 4\<rparr>
       \<lparr>registered_streams = {}, logger = Logger_init 0,
        options = \<lparr>allocation_mode = 3, managed_memory = False, initial_pool_size = 1024\<rparr>\<rparr>
   \<and> fst (cudaGetDevice
       \<lparr>cudaGetDevice = (cudaSuccess, 0), cnmemInit = (\<lambda>n d f. CNMEM_STATUS_SUCCESS),
        cnmemFinalize = CNMEM_STATUS_SUCCESS\<rparr>) = cudaSuccess
   \<and> snd (snd (rmmInitialize
       \<lparr>CudaDefaultAllocation = 0, PoolAllocation = 1, CudaManagedMemory = 2,
        CNMEM_FLAGS_MANAGED = 4\<rparr>
       \<lparr>cudaGetDevice = (cudaSuccess, 0), cnmemInit = (\<lambda>n d f. CNMEM_STATUS_SUCCESS),
        cnmemFinalize = CNMEM_STATUS_SUCCESS\<rparr>
       None
       \<lparr>registered_streams = {}, logger = Logger_init 0,
        options = \<lparr>allocation_mode = 3, managed_memory = False, initial_pool_size = 1024\<rparr>\<rparr>))
     = [Call_cudaGetDevice,
        Call_cnmemInit 1
          \<lparr>device = 0, size_dev = 1024, numStreams = 1, streams = [0], streamSizes = 0\<rparr> 4]"
proof -
  let ?K = "\<lparr>CudaDefaultAllocation = 0, PoolAllocation = 1, CudaManagedMemory = 2,
        CNMEM_FLAGS_MANAGED = 4\<rparr>"
  let ?rt = "\<lparr>cudaGetDevice = (cudaSuccess, 0), cnmemInit = (\<lambda>n d f. CNMEM_STATUS_SUCCESS),
        cnmemFinalize = CNMEM_STATUS_SUCCESS\<rparr>"
  let ?d = "\<lparr>registered_streams = {7}, logger = Logger_init 0,
        options = \<lparr>allocation_mode = 0, managed_memory = False, initial_pool_size = 0\<rparr>\<rparr>"
  let ?p = "\<lparr>registered_streams = {}, logger = Logger_init 0,
        options = \<lparr>allocation_mode = 3, managed_memory = False, initial_pool_size = 1024\<rparr>\<rparr>"
  have h1: "\<not> usePoolAllocator ?K ?d"
    by (simp add: usePoolAllocator_def getOptions_def)
  have h2: "usePoolAllocator ?K ?p"
    by (simp add: usePoolAllocator_def getOptions_def)
  have h3: "fst (cudaGetDevice ?rt) = cudaSuccess"
    by simp
  have h4: "useManagedMemory ?K ?p"
    by (simp add: useManagedMemory_def getOptions_def)
  have t1: "rmmInitialize ?K ?rt None ?d = (RMM_SUCCESS, ?d, [])"
    using initialize_null_options [of ?K ?rt ?d] h1 by blast
  have t2: "snd (snd (rmmInitialize ?K ?rt None ?p)) =
      [Call_cudaGetDevice,
       Call_cnmemInit 1
         \<lparr>device = snd (cudaGetDevice ?rt),
          size_dev = initial_pool_size (getOptions ?p),
          numStreams = 1, streams = [0], streamSizes = 0\<rparr>
         (if useManagedMemory ?K ?p then CNMEM_FLAGS_MANAGED ?K else 0)]"
    using initialize_null_options [of ?K ?rt ?p] h2 h3 by blast
  have t3: "snd (snd (rmmInitialize ?K ?rt None ?p)) =
      [Call_cudaGetDevice,
       Call_cnmemInit 1
         \<lparr>device = 0, size_dev = 1024, numStreams = 1, streams = [0], streamSizes = 0\<rparr> 4]"
    unfolding t2 using h4 by (simp add: getOptions_def)
  from h1 h2 h3 t1 t3 show ?thesis by blast
qed

section \<open>The event log as text\<close>

subsection \<open>Writing the log to a file\<close>

text \<open>
  No stream that \<open>rmmWriteLog\<close> uses has a bit in its exception mask, so none of its
  operations throws, the handler is never entered, and the function returns success
  whatever the file system answers.
\<close>

lemma setstate_no_mask:
  "exceptions os = {} \<Longrightarrow> setstate os bits = Inr (os\<lparr>rdstate := rdstate os \<union> bits\<rparr>)"
  by (simp add: setstate_def Let_def)

lemma ostream_insert_no_mask:
  "exceptions os = {} \<Longrightarrow> \<exists>os'. ostream_insert os txt = Inr os' \<and> exceptions os' = {}"
  by (simp add: ostream_insert_def setstate_no_mask)

lemma ofstream_open_no_mask:
  "\<exists>os. ofstream_open fs ofstream path = Inr os \<and> exceptions os = {}"
  by (simp add: ofstream_open_def ofstream_def setstate_no_mask)

lemma rmmWriteLog_try_returns: "\<exists>os. rmmWriteLog_try fs csv_of m path = Inr os"
proof -
  obtain os where os: "ofstream_open fs ofstream path = Inr os" "exceptions os = {}"
    using ofstream_open_no_mask by blast
  then obtain os' where "ostream_insert os (csv_of (getLogger m)) = Inr os'"
    using ostream_insert_no_mask by blast
  with os show ?thesis
    by (simp add: rmmWriteLog_try_def to_csv_def)
qed

lemma rmmWriteLog_never_reports:
  "rmmWriteLog fs csv_of m path = RMM_SUCCESS"
  using rmmWriteLog_try_returns [of fs csv_of m path]
  by (auto simp: rmmWriteLog_def)

text \<open>
  C6. \<open>rmmWriteLog\<close> is to return the I/O error status exactly when writing the log to
  the named file fails. On a path that cannot be opened it does not: \<open>open\<close> sets
  \<open>failbit\<close>, nothing is written, the \<open>try\<close> block ends without an exception, and the
  function returns success.
\<close>

theorem rmmWriteLog_unopened_file:
  "rmmWriteLog_try \<lparr>opens = (\<lambda>p. False), accepts = (\<lambda>p. False)\<rparr> (\<lambda>l. ''Event Type'')
       (Manager_init \<lparr>CudaDefaultAllocation = 0, PoolAllocation = 1, CudaManagedMemory = 2,
          CNMEM_FLAGS_MANAGED = 4\<rparr> 0) ''/missing/rmm_log.csv''
     = Inr \<lparr>str = [], rdstate = {failbit}, exceptions = {}, sink_ok = False\<rparr>
   \<and> rmmWriteLog \<lparr>opens = (\<lambda>p. False), accepts = (\<lambda>p. False)\<rparr> (\<lambda>l. ''Event Type'')
       (Manager_init \<lparr>CudaDefaultAllocation = 0, PoolAllocation = 1, CudaManagedMemory = 2,
          CNMEM_FLAGS_MANAGED = 4\<rparr> 0) ''/missing/rmm_log.csv''
     = RMM_SUCCESS"
  by (simp add: rmmWriteLog_def rmmWriteLog_try_def ofstream_open_def ofstream_def
      setstate_def to_csv_def ostream_insert_def Let_def)

subsection \<open>The log in memory\<close>

lemma to_csv_ostringstream:
  "to_csv csv_of l ostringstream = Inr (ostringstream\<lparr>str := csv_of l\<rparr>)"
  by (simp add: to_csv_def ostream_insert_def ostringstream_def)

text \<open>
  C7. For every log state, \<open>rmmLogSize\<close> returns the length of the CSV text rendered
  for that state, and \<open>rmmGetLog\<close> renders the same text: the characters it puts into the
  buffer are the first \<open>buffer_size\<close> characters of that text, and so the whole text,
  of the length \<open>rmmLogSize\<close> returned, when the buffer size is at least that length.
\<close>

theorem log_size_is_length_of_log:
  "rmmLogSize csv_of m = Inr (length (csv_of (getLogger m)))
   \<and> fst (rmmGetLog csv_of m buffer k) = RMM_SUCCESS
   \<and> map (snd (rmmGetLog csv_of m buffer k)) [0 ..< min k (length (csv_of (getLogger m)))]
       = take k (csv_of (getLogger m))"
proof -
  have "map (string_copy (csv_of (getLogger m)) buffer (min k (length (csv_of (getLogger m)))))
          [0 ..< min k (length (csv_of (getLogger m)))]
        = take k (csv_of (getLogger m))"
    by (rule nth_equalityI) (auto simp: string_copy_def)
  then show ?thesis
    by (simp add: rmmLogSize_def rmmGetLog_def to_csv_ostringstream)
qed

text \<open>
  C10. For every buffer size and every log state, \<open>rmmGetLog\<close> returns success and
  copies exactly the first \<open>min(buffer_size, length of the CSV text)\<close> characters of the
  text to the beginning of the buffer; that count is at most \<open>buffer_size\<close>; every
  location from that count on keeps what it held, in particular the location where a
  terminator would go.
\<close>

theorem get_log_copies_prefix:
  "fst (rmmGetLog csv_of m buffer buffer_size) = RMM_SUCCESS
   \<and> min buffer_size (length (csv_of (getLogger m))) \<le> buffer_size
   \<and> (\<forall>i < min buffer_size (length (csv_of (getLogger m))).
         snd (rmmGetLog csv_of m buffer buffer_size) i = csv_of (getLogger m) ! i)
   \<and> (\<forall>i. min buffer_size (length (csv_of (getLogger m))) \<le> i \<longrightarrow>
         snd (rmmGetLog csv_of m buffer buffer_size) i = buffer i)
   \<and> snd (rmmGetLog csv_of m buffer buffer_size) (min buffer_size (length (csv_of (getLogger m))))
       = buffer (min buffer_size (length (csv_of (getLogger m))))"
  by (auto simp: rmmGetLog_def to_csv_ostringstream string_copy_def)

theorem get_log_copies_prefix_witness:
  "(1::nat) < min 2 (length ''a,b'')
   \<and> min 2 (length ''a,b'') \<le> (2::nat)
   \<and> snd (rmmGetLog (\<lambda>l. ''a,b'')
        (Manager_init \<lparr>CudaDefaultAllocation = 0, PoolAllocation = 1, CudaManagedMemory = 2,
          CNMEM_FLAGS_MANAGED = 4\<rparr> 0)
        (\<lambda>i. CHR ''x'') 2) 1 = CHR '',''
   \<and> snd (rmmGetLog (\<lambda>l. ''a,b'')
        (Manager_init \<lparr>CudaDefaultAllocation = 0, PoolAllocation = 1, CudaManagedMemory = 2,
          CNMEM_FLAGS_MANAGED = 4\<rparr> 0)
        (\<lambda>i. CHR ''x'') 2) 2 = CHR ''x''"
proof -
  let ?m = "Manager_init \<lparr>CudaDefaultAllocation = 0, PoolAllocation = 1,
      CudaManagedMemory = 2, CNMEM_FLAGS_MANAGED = 4\<rparr> 0"
  have h1: "(1::nat) < min 2 (length ''a,b'')" by simp
  have h2: "min 2 (length ''a,b'') \<le> (2::nat)" by simp
  from get_log_copies_prefix [of "\<lambda>l. ''a,b''" ?m "\<lambda>i. CHR ''x''" 2] h1 h2
  show ?thesis by simp
qed


end
